theory Spec2Isabelle
  imports Main "HOL-Library.AList"
begin

section \<open>The import orchestration core of dila2sql (importer/process\_archive.py)\<close>

text \<open>
  A shallow embedding of \<^verbatim>\<open>process_archive.py\<close>. The archive is the list of its
  entries in stream order; indices, counts and sizes are natural numbers (they come from
  \<^verbatim>\<open>sum(1 for _ in archive)\<close>, \<^verbatim>\<open>range\<close> and \<^verbatim>\<open>len\<close>); statistics are integers.
  Strings are lists of 8-bit characters. Every place where the Python raises is a branch
  returning \<open>Inl\<close> of the exception's name. The collaborators that live in other modules
  (\<^verbatim>\<open>get_table\<close>, \<^verbatim>\<open>get_dossier\<close>, \<^verbatim>\<open>process_xml\<close>) are parameters; they are taken
  to return. What the code does to the store and what it prints per chunk is recorded as
  a list of events, in the order of the calls.
\<close>

subsection \<open>Constants, errors, data\<close>

datatype error = IndexError | UnicodeDecodeError | ZeroDivisionError

definition PROCESS_XML_JOBS_BATCH_SIZE :: nat where
  "PROCESS_XML_JOBS_BATCH_SIZE = 1000"

definition CHUNK_SIZE :: nat where
  "CHUNK_SIZE = 500000"

text \<open>An archive entry: \<^verbatim>\<open>entry.pathname\<close>, \<^verbatim>\<open>entry.mtime\<close>, \<^verbatim>\<open>entry.get_blocks()\<close>.\<close>

record entry =
  pathname :: string
  entry_mtime :: int
  get_blocks :: "string list"

text \<open>
  The tuple \<^verbatim>\<open>(xml_blob, mtime, base, table, dossier, text_cid, text_id, process_links)\<close>
  returned by \<^verbatim>\<open>get_process_xml_job_args_for_entry\<close>.
\<close>

record job =
  xml_blob :: string
  mtime :: int
  job_base :: string
  job_table :: string
  job_dossier :: string
  text_cid :: "string option"
  text_id :: string
  process_links :: bool

text \<open>
  A \<^verbatim>\<open>defaultdict\<close> with default 0, as an association list in insertion order.
  \<^verbatim>\<open>d[key] += n\<close> reads the default for a missing key and appends the key; for a key
  that is present it replaces the value in place.
\<close>

type_synonym 'v ddict = "(string \<times> 'v) list"

definition dd_get :: "('v::zero) ddict \<Rightarrow> string \<Rightarrow> 'v" where
  "dd_get d key = (case map_of d key of None \<Rightarrow> 0 | Some v \<Rightarrow> v)"

definition dd_add :: "('v::{zero,plus}) ddict \<Rightarrow> string \<Rightarrow> 'v \<Rightarrow> 'v ddict" where
  "dd_add d key n = AList.update key (dd_get d key + n) d"

text \<open>The store connection a call works on: the one the caller passed in, or one opened
  by \<^verbatim>\<open>connect_db(db_url)\<close>.\<close>

datatype db = CallerDb | Connected string

datatype event =
    EChunkGenerating nat nat nat
  | EChunkProcessing nat
  | EConnect string
  | EProxyInit db
  | EProcess job
  | ECommit db
  | ESuppress string db "string list"

subsection \<open>Strings\<close>

text \<open>\<^verbatim>\<open>str.split('/')\<close>: never empty; an empty string gives one empty segment.\<close>

fun split_slash :: "string \<Rightarrow> string list" where
  "split_slash [] = [[]]"
| "split_slash (c # cs) =
     (if c = CHR ''/'' then [] # split_slash cs
      else (case split_slash cs of [] \<Rightarrow> [[c]] | w # ws \<Rightarrow> (c # w) # ws))"

text \<open>\<^verbatim>\<open>str.lower()\<close> on the letters A to Z; other characters are kept.\<close>

definition lower_char :: "char \<Rightarrow> char" where
  "lower_char c =
     (if 65 \<le> (of_char c :: nat) \<and> (of_char c :: nat) \<le> 90
      then (case c of Char b0 b1 b2 b3 b4 b5 b6 b7 \<Rightarrow> Char b0 b1 b2 b3 b4 True b6 b7)
      else c)"

definition lower :: "string \<Rightarrow> string" where
  "lower s = map lower_char s"

definition startswith :: "string \<Rightarrow> string \<Rightarrow> bool" where
  "startswith s p = (take (length p) s = p)"

text \<open>\<^verbatim>\<open>bytes.decode('ascii')\<close> raises on a byte above 127.\<close>

definition decode_ascii :: "string \<Rightarrow> error + string" where
  "decode_ascii bs =
     (if list_all (\<lambda>c. (of_char c :: nat) < 128) bs then Inr bs else Inl UnicodeDecodeError)"

text \<open>\<^verbatim>\<open>str.split()\<close> without argument: the maximal runs of non-whitespace characters.\<close>

definition is_space :: "char \<Rightarrow> bool" where
  "is_space c = ((of_char c :: nat) \<in> {9, 10, 11, 12, 13, 28, 29, 30, 31, 32})"

fun split_ws_acc :: "string \<Rightarrow> string \<Rightarrow> string list" where
  "split_ws_acc w [] = (if w = [] then [] else [w])"
| "split_ws_acc w (c # cs) =
     (if is_space c then (if w = [] then [] else [w]) @ split_ws_acc [] cs
      else split_ws_acc (w @ [c]) cs)"

definition split_ws :: "string \<Rightarrow> string list" where
  "split_ws s = split_ws_acc [] s"

subsection \<open>The chunked walker\<close>

text \<open>
  Modelled from the spec: \<^verbatim>\<open>consume(archive, n)\<close> of \<^verbatim>\<open>dila2sql/utils.py\<close>, which is
  not part of the sources at hand. It advances the stream by discarding its first \<open>n\<close> entries.
\<close>

definition consume :: "'e list \<Rightarrow> nat \<Rightarrow> 'e list" where
  "consume archive n = drop n archive"

text \<open>The \<^verbatim>\<open>for\<close> loop of the generator, with the counter \<^verbatim>\<open>idx\<close> carried along: the
  result is the list of the entries it yields.\<close>

fun iterate_loop :: "nat \<Rightarrow> nat \<Rightarrow> 'e list \<Rightarrow> 'e list" where
  "iterate_loop idx chunk_end_idx [] = []"
| "iterate_loop idx chunk_end_idx (e # es) =
     (if idx > chunk_end_idx then []
      else e # iterate_loop (idx + 1) chunk_end_idx es)"

definition iterate_archive_chunk_entries :: "'e list \<Rightarrow> nat \<Rightarrow> nat \<Rightarrow> 'e list" where
  "iterate_archive_chunk_entries archive chunk_start_idx chunk_end_idx =
     iterate_loop chunk_start_idx chunk_end_idx (consume archive chunk_start_idx)"

subsection \<open>The chunk list\<close>

text \<open>
  Lines 29 to 32 of \<^verbatim>\<open>process_archive\<close>, for a chunk size given as argument.
  \<^verbatim>\<open>chunks[-1][-1]\<close> raises when no full chunk exists.
\<close>

definition process_archive_chunks :: "nat \<Rightarrow> nat \<Rightarrow> error + (nat \<times> nat) list" where
  "process_archive_chunks chunk_size total_entries =
     (if chunk_size = 0 then Inl ZeroDivisionError
      else
        let chunks_count = total_entries div chunk_size;
            last_chunk_size = total_entries mod chunk_size;
            chunks = map (\<lambda>i. (i * chunk_size, (i + 1) * chunk_size)) [0..<chunks_count]
        in if chunks = [] then Inl IndexError
           else
             let last_idx = snd (last chunks)
             in Inr (chunks @
                     (if last_chunk_size > 0 then [(last_idx, last_idx + last_chunk_size)]
                      else [])))"

subsection \<open>Merging statistics\<close>

text \<open>
  \<^verbatim>\<open>merge_counts\<close> returns nothing. Its effect on \<^verbatim>\<open>counts\<close> is a mutation of the
  dictionary the caller holds. \<^verbatim>\<open>skipped\<close> is an integer: \<^verbatim>\<open>skipped += sub_skipped\<close>
  rebinds the callee's own name. The model returns both, the dictionary after the call
  and the value of the callee's local name when it returns; a caller takes the first and
  keeps its own \<^verbatim>\<open>skipped\<close>.
\<close>

record merge_frame =
  counts_after :: "int ddict"
  local_skipped :: int

definition merge_counts :: "int ddict \<Rightarrow> int \<Rightarrow> int ddict \<Rightarrow> int \<Rightarrow> merge_frame" where
  "merge_counts sub_counts sub_skipped counts skipped =
     \<lparr> counts_after = fold (\<lambda>(key, count) c. dd_add c key count) sub_counts counts,
       local_skipped = skipped + sub_skipped \<rparr>"

text \<open>What the caller holds after \<^verbatim>\<open>merge_counts(sub_counts, sub_skipped, counts, skipped)\<close>.\<close>

definition after_merge_counts ::
  "int ddict \<Rightarrow> int \<Rightarrow> int ddict \<times> int \<Rightarrow> int ddict \<times> int" where
  "after_merge_counts sub_counts sub_skipped acc =
     (counts_after (merge_counts sub_counts sub_skipped (fst acc) (snd acc)), snd acc)"

subsection \<open>The entry classifier\<close>

text \<open>\<^verbatim>\<open>xs[i]\<close> for an index that is not negative.\<close>

definition item :: "'a list \<Rightarrow> nat \<Rightarrow> error + 'a" where
  "item xs i = (if i < length xs then Inr (xs ! i) else Inl IndexError)"

text \<open>\<^verbatim>\<open>a or b\<close> and \<^verbatim>\<open>a and b\<close> on operands that may raise: the right operand is
  looked at only when the left one does not decide.\<close>

definition or_else :: "error + bool \<Rightarrow> error + bool \<Rightarrow> error + bool" where
  "or_else a b = (case a of Inl err \<Rightarrow> Inl err | Inr x \<Rightarrow> (if x then Inr True else b))"

definition and_then :: "error + bool \<Rightarrow> error + bool \<Rightarrow> error + bool" where
  "and_then a b = (case a of Inl err \<Rightarrow> Inl err | Inr x \<Rightarrow> (if x then b else Inr False))"

definition test :: "('a \<Rightarrow> bool) \<Rightarrow> error + 'a \<Rightarrow> error + bool" where
  "test p r = (case r of Inl err \<Rightarrow> Inl err | Inr v \<Rightarrow> Inr (p v))"

text \<open>The condition of lines 101 to 106: true when the entry is in an unknown folder.\<close>

definition unknown_folder_check :: "string list \<Rightarrow> error + bool" where
  "unknown_folder_check parts =
     or_else (test (\<lambda>p. p \<notin> set [''legi'', ''jorf'', ''kali'']) (item parts 0))
    (or_else (and_then (test (\<lambda>p. p = ''legi'') (item parts 0))
                       (test (\<lambda>p. \<not> startswith p ''code_et_TNC_'') (item parts 2)))
    (or_else (and_then (test (\<lambda>p. p = ''jorf'') (item parts 0))
                       (test (\<lambda>p. p \<notin> set [''article'', ''section_ta'', ''texte''])
                             (item parts 2)))
             (and_then (test (\<lambda>p. p = ''kali'') (item parts 0))
                       (test (\<lambda>p. p \<notin> set [''article'', ''section_ta'', ''texte'', ''conteneur''])
                             (item parts 2)))))"

text \<open>The two accumulators the classifier mutates: the list is extended in place
  (\<^verbatim>\<open>+=\<close> on a list), the tally is a \<^verbatim>\<open>defaultdict\<close>.\<close>

record walk_state =
  liste_suppression :: "string list"
  unknown_folders :: "nat ddict"

text \<open>
  \<^verbatim>\<open>get_process_xml_job_args_for_entry\<close>, in two parts. The arguments \<^verbatim>\<open>counts\<close>,
  \<^verbatim>\<open>skipped\<close>, \<^verbatim>\<open>db\<close> and \<^verbatim>\<open>db_url\<close> are never read by the function and are left
  out. The result is the returned value (\<open>None\<close> for a bare \<^verbatim>\<open>return\<close>) and the
  accumulators after the call.

  \<open>classify_parts\<close> is lines 101 to 119, everything after the prefix strip, as a
  function of the segment list \<^verbatim>\<open>parts\<close> those lines read.
\<close>

definition classify_parts ::
  "(string list \<Rightarrow> string option) \<Rightarrow> (string list \<Rightarrow> string \<Rightarrow> string) \<Rightarrow>
   entry \<Rightarrow> string \<Rightarrow> walk_state \<Rightarrow> bool \<Rightarrow> string list \<Rightarrow>
   error + (job option \<times> walk_state)" where
  "classify_parts get_table get_dossier e base st links parts =
     (case unknown_folder_check parts of
        Inl err \<Rightarrow> Inl err
      | Inr unknown \<Rightarrow>
          if unknown then
            (case item parts 2 of
               Inl err \<Rightarrow> Inl err
             | Inr p2 \<Rightarrow>
                 Inr (None, st\<lparr>unknown_folders := dd_add (unknown_folders st) p2 1\<rparr>))
          else
            let table = get_table parts;
                dossier = get_dossier parts base
            in (case (if base = ''LEGI'' then
                        (case item parts 11 of
                           Inl err \<Rightarrow> Inl err
                         | Inr p11 \<Rightarrow> Inr (Some p11))
                      else Inr None) of
                  Inl err \<Rightarrow> Inl err
                | Inr cid \<Rightarrow>
                    let tid = take (length (last parts) - 4) (last parts)
                    in (case table of
                          None \<Rightarrow>
                            Inr (None,
                                 st\<lparr>unknown_folders := dd_add (unknown_folders st) tid 1\<rparr>)
                        | Some t \<Rightarrow>
                            Inr (Some \<lparr> xml_blob = concat (get_blocks e),
                                        mtime = entry_mtime e,
                                        job_base = base,
                                        job_table = t,
                                        job_dossier = dossier,
                                        text_cid = cid,
                                        text_id = tid,
                                        process_links = links \<rparr>,
                                 st))))"

text \<open>Lines 91 to 100, then the rest. \<^verbatim>\<open>path[-1]\<close> raises on an empty path;
  \<^verbatim>\<open>parts[-1]\<close> never does, \<^verbatim>\<open>parts[1]\<close> does on a path without a slash.\<close>

definition get_process_xml_job_args_for_entry ::
  "(string list \<Rightarrow> string option) \<Rightarrow> (string list \<Rightarrow> string \<Rightarrow> string) \<Rightarrow>
   entry \<Rightarrow> string \<Rightarrow> walk_state \<Rightarrow> bool \<Rightarrow> error + (job option \<times> walk_state)" where
  "get_process_xml_job_args_for_entry get_table get_dossier e base st links =
     (let path = pathname e; parts = split_slash path
      in if path = [] then Inl IndexError
         else if last path = CHR ''/'' then Inr (None, st)
         else if last parts = ''liste_suppression_'' @ lower base @ ''.dat'' then
           (case decode_ascii (concat (get_blocks e)) of
              Inl err \<Rightarrow> Inl err
            | Inr txt \<Rightarrow>
                Inr (None, st\<lparr>liste_suppression := liste_suppression st @ split_ws txt\<rparr>))
         else
           (case item parts 1 of
              Inl err \<Rightarrow> Inl err
            | Inr p1 \<Rightarrow>
                classify_parts get_table get_dossier e base st links
                  (if p1 = lower base then tl parts else parts)))"

text \<open>The list comprehension of lines 40 to 46: the classifier on every entry of the
  chunk in order, the accumulators threaded through; the first exception ends it.\<close>

fun jobs_args_for_entries ::
  "(string list \<Rightarrow> string option) \<Rightarrow> (string list \<Rightarrow> string \<Rightarrow> string) \<Rightarrow>
   string \<Rightarrow> bool \<Rightarrow> entry list \<Rightarrow> walk_state \<Rightarrow> error + (job option list \<times> walk_state)" where
  "jobs_args_for_entries get_table get_dossier base links [] st = Inr ([], st)"
| "jobs_args_for_entries get_table get_dossier base links (e # es) st =
     (case get_process_xml_job_args_for_entry get_table get_dossier e base st links of
        Inl err \<Rightarrow> Inl err
      | Inr (a, st') \<Rightarrow>
          (case jobs_args_for_entries get_table get_dossier base links es st' of
             Inl err \<Rightarrow> Inl err
           | Inr (as, st'') \<Rightarrow> Inr (a # as, st'')))"

subsection \<open>Running jobs\<close>

text \<open>
  \<^verbatim>\<open>process_xml_jobs_sync\<close>: the loop carries the dictionary \<^verbatim>\<open>counts\<close>, the integer
  \<^verbatim>\<open>skipped\<close> of this function and the events so far. \<^verbatim>\<open>progress\<close> only wraps the
  list in a progress bar.
\<close>

fun sync_loop ::
  "(job \<Rightarrow> int ddict \<times> bool) \<Rightarrow> db \<Rightarrow> bool \<Rightarrow> job list \<Rightarrow>
   event list \<times> int ddict \<times> int \<Rightarrow> event list \<times> int ddict \<times> int" where
  "sync_loop process_xml d commit [] acc = acc"
| "sync_loop process_xml d commit (arg_list # rest) (evs, counts, skipped) =
     (let (xml_counts, xml_skipped) = process_xml arg_list;
          counts' = counts_after (merge_counts xml_counts (of_bool xml_skipped) counts skipped)
      in sync_loop process_xml d commit rest
           (evs @ [EProcess arg_list] @ (if commit then [ECommit d] else []),
            counts', skipped))"

definition process_xml_jobs_sync ::
  "(job \<Rightarrow> int ddict \<times> bool) \<Rightarrow> job list \<Rightarrow> bool \<Rightarrow> db \<Rightarrow> bool \<Rightarrow>
   event list \<times> int ddict \<times> int" where
  "process_xml_jobs_sync process_xml jobs_args progress d commit =
     sync_loop process_xml d commit jobs_args ([], [], 0)"

definition process_xml_jobs_batch ::
  "(job \<Rightarrow> int ddict \<times> bool) \<Rightarrow> job list \<Rightarrow> string \<Rightarrow> event list \<times> int ddict \<times> int" where
  "process_xml_jobs_batch process_xml jobs_args_batch db_url =
     (let d = Connected db_url;
          (evs, batch_counts, batch_skipped) =
             process_xml_jobs_sync process_xml jobs_args_batch False d False
      in ([EConnect db_url, EProxyInit d] @ evs @ [ECommit d], batch_counts, batch_skipped))"

text \<open>\<^verbatim>\<open>[xs[i:i + n] for i in range(0, len(xs), n)]\<close> for a positive \<open>n\<close>.\<close>

definition batches_of :: "nat \<Rightarrow> 'a list \<Rightarrow> 'a list list" where
  "batches_of n xs = map (\<lambda>k. take n (drop (k * n) xs)) [0..<(length xs + n - 1) div n]"

text \<open>
  \<^verbatim>\<open>process_xml_jobs_in_parallel\<close>. The pool hands the results back in the order the
  batches complete, which the code does not fix; the model takes them in the order of
  submission and lists each worker's events one batch after the other.
\<close>

fun parallel_loop ::
  "(job \<Rightarrow> int ddict \<times> bool) \<Rightarrow> string \<Rightarrow> job list list \<Rightarrow>
   event list \<times> int ddict \<times> int \<Rightarrow> event list \<times> int ddict \<times> int" where
  "parallel_loop process_xml db_url [] acc = acc"
| "parallel_loop process_xml db_url (batch # rest) (evs, counts, skipped) =
     (let (bevs, batch_counts, batch_skipped) = process_xml_jobs_batch process_xml batch db_url;
          counts' = counts_after (merge_counts batch_counts batch_skipped counts skipped)
      in parallel_loop process_xml db_url rest (evs @ bevs, counts', skipped))"

definition process_xml_jobs_in_parallel ::
  "(job \<Rightarrow> int ddict \<times> bool) \<Rightarrow> job list \<Rightarrow> string \<Rightarrow> event list \<times> int ddict \<times> int" where
  "process_xml_jobs_in_parallel process_xml process_xml_jobs_args db_url =
     parallel_loop process_xml db_url
       (batches_of PROCESS_XML_JOBS_BATCH_SIZE process_xml_jobs_args) ([], [], 0)"

subsection \<open>The driver\<close>

text \<open>The test of line 49; \<^verbatim>\<open>MAX_PROCESSES\<close> is \<open>None\<close> when the environment does not
  set it.\<close>

definition use_parallel :: "int option \<Rightarrow> 'a list \<Rightarrow> bool" where
  "use_parallel max_processes process_xml_jobs_args =
     (max_processes \<noteq> Some 1 \<and>
      length process_xml_jobs_args > 10 * PROCESS_XML_JOBS_BATCH_SIZE)"

definition run_jobs ::
  "(job \<Rightarrow> int ddict \<times> bool) \<Rightarrow> int option \<Rightarrow> string \<Rightarrow> job list \<Rightarrow>
   event list \<times> int ddict \<times> int" where
  "run_jobs process_xml max_processes db_url process_xml_jobs_args =
     (if use_parallel max_processes process_xml_jobs_args
      then process_xml_jobs_in_parallel process_xml process_xml_jobs_args db_url
      else process_xml_jobs_sync process_xml process_xml_jobs_args True CallerDb True)"

text \<open>The collaborators and the configuration of one run.\<close>

record config =
  cfg_get_table :: "string list \<Rightarrow> string option"
  cfg_get_dossier :: "string list \<Rightarrow> string \<Rightarrow> string"
  cfg_process_xml :: "job \<Rightarrow> int ddict \<times> bool"
  cfg_MAX_PROCESSES :: "int option"
  cfg_db_url :: string
  cfg_process_links :: bool

text \<open>The body of the loop over the chunks (lines 36 to 53).\<close>

definition process_chunk ::
  "config \<Rightarrow> entry list \<Rightarrow> string \<Rightarrow> nat \<Rightarrow> nat \<times> nat \<Rightarrow>
   walk_state \<times> int ddict \<times> int \<Rightarrow> event list \<times> (error + walk_state \<times> int ddict \<times> int)" where
  "process_chunk cfg archive base chunk_idx chunk s =
     (let (chunk_start_idx, chunk_end_idx) = chunk;
          (st, counts, skipped) = s;
          chunk_size = chunk_end_idx - chunk_start_idx;
          entries = iterate_archive_chunk_entries archive chunk_start_idx chunk_end_idx;
          generating = [EChunkGenerating chunk_idx chunk_size chunk_start_idx]
      in (case jobs_args_for_entries (cfg_get_table cfg) (cfg_get_dossier cfg) base
                 (cfg_process_links cfg) entries st of
            Inl err \<Rightarrow> (generating, Inl err)
          | Inr (args, st') \<Rightarrow>
              let process_xml_jobs_args = List.map_filter id args;
                  (evs, chunk_counts, chunk_skipped) =
                     run_jobs (cfg_process_xml cfg) (cfg_MAX_PROCESSES cfg) (cfg_db_url cfg)
                       process_xml_jobs_args
              in (generating @ [EChunkProcessing chunk_idx] @ evs,
                  Inr (st', after_merge_counts chunk_counts chunk_skipped (counts, skipped)))))"

fun chunk_loop ::
  "config \<Rightarrow> entry list \<Rightarrow> string \<Rightarrow> nat \<Rightarrow> (nat \<times> nat) list \<Rightarrow>
   walk_state \<times> int ddict \<times> int \<Rightarrow> event list \<times> (error + walk_state \<times> int ddict \<times> int)" where
  "chunk_loop cfg archive base chunk_idx [] s = ([], Inr s)"
| "chunk_loop cfg archive base chunk_idx (chunk # rest) s =
     (case process_chunk cfg archive base chunk_idx chunk s of
        (evs, Inl err) \<Rightarrow> (evs, Inl err)
      | (evs, Inr s') \<Rightarrow>
          (case chunk_loop cfg archive base (chunk_idx + 1) rest s' of
             (evs', r) \<Rightarrow> (evs @ evs', r)))"

text \<open>What a run that ends reports: the three process-wide counters.\<close>

record summary =
  final_counts :: "int ddict"
  final_skipped :: int
  final_unknown_folders :: "nat ddict"

text \<open>
  \<^verbatim>\<open>process_archive\<close> for a chunk size given as argument. \<open>base_value\<close> is the value of
  the \<^verbatim>\<open>base\<close> row of \<^verbatim>\<open>DBMeta\<close>; \<^verbatim>\<open>value or 'LEGI'\<close> replaces \<open>None\<close> and the empty
  string. The result is the events of the run and either the exception that ended it or
  its summary.
\<close>

definition base_or_default :: "string option \<Rightarrow> string" where
  "base_or_default base_value =
     (case base_value of None \<Rightarrow> ''LEGI'' | Some v \<Rightarrow> if v = [] then ''LEGI'' else v)"

definition process_archive_with ::
  "nat \<Rightarrow> config \<Rightarrow> string option \<Rightarrow> entry list \<Rightarrow> event list \<times> (error + summary)" where
  "process_archive_with chunk_size cfg base_value archive =
     (let base = base_or_default base_value;
          total_entries = length archive
      in (case process_archive_chunks chunk_size total_entries of
            Inl err \<Rightarrow> ([], Inl err)
          | Inr chunks \<Rightarrow>
              (case chunk_loop cfg archive base 0 chunks
                      (\<lparr> liste_suppression = [], unknown_folders = [] \<rparr>, [], 0) of
                 (evs, Inl err) \<Rightarrow> (evs, Inl err)
               | (evs, Inr (st, counts, skipped)) \<Rightarrow>
                   (evs @
                    (if liste_suppression st \<noteq> [] then
                       [EConnect (cfg_db_url cfg), EProxyInit (Connected (cfg_db_url cfg)),
                        ESuppress base (Connected (cfg_db_url cfg)) (liste_suppression st)]
                     else []),
                    Inr \<lparr> final_counts = counts, final_skipped = skipped,
                          final_unknown_folders = unknown_folders st \<rparr>))))"

definition process_archive ::
  "config \<Rightarrow> string option \<Rightarrow> entry list \<Rightarrow> event list \<times> (error + summary)" where
  "process_archive = process_archive_with CHUNK_SIZE"

subsection \<open>Reading the event list and the suppression entries\<close>

fun is_commit :: "event \<Rightarrow> bool" where
  "is_commit (ECommit d) = True"
| "is_commit ev = False"

fun is_suppress :: "event \<Rightarrow> bool" where
  "is_suppress (ESuppress b d ids) = True"
| "is_suppress ev = False"

text \<open>
  The identifiers one entry contributes to the suppression list, in the spec's words: a
  suppression-list entry, one that is not a directory and whose final segment is
  \<^verbatim>\<open>liste_suppression_<base>.dat\<close>, has its payload split on whitespace; any other
  entry contributes nothing. The second definition collects them over the entries walked
  for one chunk.
\<close>

definition suppression_ids :: "string \<Rightarrow> entry \<Rightarrow> string list" where
  "suppression_ids base e =
     (if pathname e \<noteq> [] \<and> last (pathname e) \<noteq> CHR ''/''
         \<and> last (split_slash (pathname e)) = ''liste_suppression_'' @ lower base @ ''.dat''
      then split_ws (concat (get_blocks e)) else [])"

definition chunk_suppression_ids :: "string \<Rightarrow> entry list \<Rightarrow> nat \<times> nat \<Rightarrow> string list" where
  "chunk_suppression_ids base archive chunk =
     concat (map (suppression_ids base)
               (iterate_archive_chunk_entries archive (fst chunk) (snd chunk)))"

subsection \<open>Sample collaborators and entries\<close>

text \<open>
  Concrete collaborators and entries on which the theorems below are instantiated. The
  table mapping looks at characters 4 to 7 of the file name, as the names of the legal
  databases carry the kind of document there.
\<close>

definition sample_get_table :: "string list \<Rightarrow> string option" where
  "sample_get_table parts =
     (if take 4 (drop 4 (last parts)) = ''ARTI'' then Some ''articles'' else None)"

definition sample_get_dossier :: "string list \<Rightarrow> string \<Rightarrow> string" where
  "sample_get_dossier parts base = (if 3 < length parts then parts ! 3 else [])"

definition sample_process_xml :: "job \<Rightarrow> int ddict \<times> bool" where
  "sample_process_xml j = ([(''add'', 1)], True)"

definition sample_entry :: "string \<Rightarrow> string \<Rightarrow> entry" where
  "sample_entry path payload = \<lparr> pathname = path, entry_mtime = 0, get_blocks = [payload] \<rparr>"

definition empty_walk :: walk_state where
  "empty_walk = \<lparr> liste_suppression = [], unknown_folders = [] \<rparr>"

definition sample_config :: config where
  "sample_config =
     \<lparr> cfg_get_table = sample_get_table, cfg_get_dossier = sample_get_dossier,
       cfg_process_xml = sample_process_xml, cfg_MAX_PROCESSES = None,
       cfg_db_url = ''sqlite:///legi.sqlite'', cfg_process_links = True \<rparr>"

definition sample_archive :: "entry list" where
  "sample_archive =
     [sample_entry ''jorf/global/article/JORFARTI1.xml'' ''<a/>'',
      sample_entry ''jorf/'' [],
      sample_entry ''other/global/misc/readme.txt'' ''r'',
      sample_entry ''liste_suppression_jorf.dat'' ''JORFTEXT1 JORFTEXT2'']"

definition sample_job :: job where
  "sample_job =
     \<lparr> xml_blob = ''<a/>'', mtime = 0, job_base = ''JORF'', job_table = ''articles'',
       job_dossier = ''JORFARTI1.xml'', text_cid = None, text_id = ''JORFARTI1'',
       process_links = True \<rparr>"

definition legi_section_path :: string where
  "legi_section_path =
     ''legi/global/code_et_TNC_en_vigueur/code_en_vigueur/LEGI/TEXT/00/00/06/07/05/LEGITEXT000006070506/section_ta/LEGI/SCTA/00/00/06/41/LEGISCTA000006410000.xml''"

section \<open>Properties\<close>

subsection \<open>The chunked walker\<close>

lemma iterate_loop_take:
  "iterate_loop idx chunk_end_idx es = take (Suc chunk_end_idx - idx) es"
proof (induction es arbitrary: idx)
  case Nil
  show ?case by simp
next
  case (Cons e es)
  show ?case
  proof (cases "idx > chunk_end_idx")
    case True
    then show ?thesis by simp
  next
    case False
    then have "Suc chunk_end_idx - idx = Suc (Suc chunk_end_idx - (idx + 1))" by simp
    with False Cons show ?thesis by simp
  qed
qed

lemma iterate_archive_chunk_entries_take_drop:
  "iterate_archive_chunk_entries archive chunk_start_idx chunk_end_idx =
     take (Suc chunk_end_idx - chunk_start_idx) (drop chunk_start_idx archive)"
  by (simp add: iterate_archive_chunk_entries_def consume_def iterate_loop_take)

lemma iterate_archive_chunk_entries_length:
  assumes "chunk_start_idx \<le> chunk_end_idx" and "chunk_end_idx < length archive"
  shows "length (iterate_archive_chunk_entries archive chunk_start_idx chunk_end_idx) =
           chunk_end_idx - chunk_start_idx + 1"
  using assms by (simp add: iterate_archive_chunk_entries_take_drop)

text \<open>
  Claim C1. The walker is to skip the first \<open>start\<close> entries and then yield exactly the
  entries with indices \<open>start\<close> to \<open>end - 1\<close>, none with an index of \<open>end\<close> or more. The
  loop tests \<^verbatim>\<open>idx > chunk_end_idx\<close> before it counts the entry at hand, so the entry
  with index \<open>end\<close> is yielded too: on an archive of three entries and the range from 0 to
  1 the walker yields two entries, the second of which has index 1.
\<close>

theorem walker_yields_entry_at_end_index:
  "iterate_archive_chunk_entries [''e0'', ''e1'', ''e2''] 0 1 = [''e0'', ''e1'']"
  by (simp add: iterate_archive_chunk_entries_def consume_def)

subsection \<open>The chunk list\<close>

lemma process_archive_chunks_small:
  assumes "total_entries < chunk_size"
  shows "process_archive_chunks chunk_size total_entries = Inl IndexError"
  using assms by (simp add: process_archive_chunks_def)

lemma process_archive_chunks_full:
  assumes "0 < chunk_size" and "chunk_size \<le> total_entries"
  shows "process_archive_chunks chunk_size total_entries =
     Inr (map (\<lambda>i. (i * chunk_size, (i + 1) * chunk_size)) [0..<total_entries div chunk_size]
          @ (if total_entries mod chunk_size > 0
             then [(total_entries div chunk_size * chunk_size, total_entries)] else []))"
proof -
  from assms have "0 < total_entries div chunk_size"
    by (simp add: div_greater_zero_iff)
  then obtain m where m: "total_entries div chunk_size = Suc m"
    by (cases "total_entries div chunk_size") auto
  have "total_entries div chunk_size * chunk_size + total_entries mod chunk_size = total_entries"
    by simp
  with m have t: "chunk_size + m * chunk_size + total_entries mod chunk_size = total_entries"
    by simp
  from assms(1) m t show ?thesis
    by (simp add: process_archive_chunks_def Let_def)
qed

lemma process_archive_chunks_example:
  "process_archive_chunks CHUNK_SIZE 1200000 =
     Inr [(0, 500000), (500000, 1000000), (1000000, 1200000)]"
  by (simp add: process_archive_chunks_def CHUNK_SIZE_def upt_rec)

text \<open>
  Claim C2. The chunk list is to partition the range from 0 to the total, and its
  construction is to succeed also when the total is below the chunk size. With at least
  one full chunk the list is the partition (the two lemmas above, the second being the
  example of 1,200,000 entries). Below the chunk size no full chunk exists, and
  \<^verbatim>\<open>chunks[-1][-1]\<close> reads the last element of an empty list: an archive of three
  entries raises \<^verbatim>\<open>IndexError\<close>.
\<close>

theorem chunk_list_raises_below_chunk_size:
  "process_archive_chunks CHUNK_SIZE 3 = Inl IndexError"
  by (simp add: process_archive_chunks_def CHUNK_SIZE_def)

subsection \<open>Merging statistics\<close>

lemma sync_loop_skipped:
  "snd (snd (sync_loop px d commit jobs_args (evs, counts, skipped))) = skipped"
  by (induction jobs_args arbitrary: evs counts) (auto simp: Let_def split: prod.splits)

lemma process_xml_jobs_sync_skipped:
  "snd (snd (process_xml_jobs_sync px jobs_args progress d commit)) = 0"
  by (simp add: process_xml_jobs_sync_def sync_loop_skipped)

text \<open>
  Claim C3. Merging is to add the sub-counts to the accumulated counts and the sub-skipped
  total to the accumulated skipped total, as the caller observes them: two batches of
  \<open>{add: 3, update: 1}\<close> with 2 skipped are to give \<open>{add: 6, update: 2}\<close> with 4
  skipped. The counts arrive, the skipped total does not: after the two merges the caller
  still holds 0.
\<close>

theorem merge_counts_loses_skipped:
  "after_merge_counts [(''add'', 3), (''update'', 1)] 2
     (after_merge_counts [(''add'', 3), (''update'', 1)] 2 ([], 0)) =
   ([(''add'', 6), (''update'', 2)], 0)"
  by (simp add: after_merge_counts_def merge_counts_def dd_add_def dd_get_def)

subsection \<open>Events of the executors\<close>

lemma sync_loop_events:
  "fst (sync_loop px d commit jobs_args (evs, counts, skipped)) =
     evs @ concat (map (\<lambda>j. EProcess j # (if commit then [ECommit d] else [])) jobs_args)"
  by (induction jobs_args arbitrary: evs counts) (auto simp: Let_def split: prod.splits)

lemma process_xml_jobs_sync_events:
  "fst (process_xml_jobs_sync px jobs_args progress d commit) =
     concat (map (\<lambda>j. EProcess j # (if commit then [ECommit d] else [])) jobs_args)"
  by (simp add: process_xml_jobs_sync_def sync_loop_events)

lemma concat_singletons: "concat (map (\<lambda>j. [f j]) js) = map f js"
  by (induction js) simp_all

lemma process_xml_jobs_batch_events:
  "fst (process_xml_jobs_batch px batch url) =
     [EConnect url, EProxyInit (Connected url)] @ map EProcess batch @ [ECommit (Connected url)]"
  using process_xml_jobs_sync_events [of px batch False "Connected url" False]
  by (cases "process_xml_jobs_sync px batch False (Connected url) False")
     (simp add: process_xml_jobs_batch_def Let_def concat_singletons)

lemma filter_commit_process: "filter is_commit (map EProcess js) = []"
  by (induction js) simp_all

lemma filter_commit_each:
  "filter is_commit (concat (map (\<lambda>j. [EProcess j, ECommit d]) js)) = map (\<lambda>j. ECommit d) js"
  by (induction js) simp_all

lemma parallel_loop_events:
  "fst (parallel_loop px url batches (evs, counts, skipped)) =
     evs @ concat (map (\<lambda>b. fst (process_xml_jobs_batch px b url)) batches)"
  by (induction batches arbitrary: evs counts) (auto simp: Let_def split: prod.splits)

text \<open>
  Claim C8. A worker running one batch opens its own connection and commits exactly once,
  after the last job of the batch; the loop it delegates to runs without committing. In
  the parallel path every batch is run that way. The sequential path of a chunk commits
  on the caller's connection after each job.
\<close>

theorem batch_commits_once_sync_commits_each:
  "fst (process_xml_jobs_batch px batch url) =
     [EConnect url, EProxyInit (Connected url)] @ map EProcess batch @ [ECommit (Connected url)]
   \<and> filter is_commit (fst (process_xml_jobs_batch px batch url)) = [ECommit (Connected url)]
   \<and> fst (process_xml_jobs_sync px batch False (Connected url) False) = map EProcess batch
   \<and> fst (process_xml_jobs_in_parallel px jobs url) =
       concat (map (\<lambda>b. fst (process_xml_jobs_batch px b url))
                 (batches_of PROCESS_XML_JOBS_BATCH_SIZE jobs))
   \<and> fst (process_xml_jobs_sync px jobs True CallerDb True) =
       concat (map (\<lambda>j. [EProcess j, ECommit CallerDb]) jobs)
   \<and> filter is_commit (fst (process_xml_jobs_sync px jobs True CallerDb True)) =
       map (\<lambda>j. ECommit CallerDb) jobs
   \<and> (\<not> use_parallel mp jobs \<longrightarrow>
        fst (run_jobs px mp url jobs) = concat (map (\<lambda>j. [EProcess j, ECommit CallerDb]) jobs))"
  by (simp add: process_xml_jobs_batch_events process_xml_jobs_sync_events
      filter_commit_process filter_commit_each concat_singletons
      process_xml_jobs_in_parallel_def parallel_loop_events run_jobs_def)

theorem batch_commits_once_sync_commits_each_witness:
  "fst (process_xml_jobs_batch sample_process_xml [sample_job, sample_job]
          ''sqlite:///legi.sqlite'') =
     [EConnect ''sqlite:///legi.sqlite'', EProxyInit (Connected ''sqlite:///legi.sqlite''),
      EProcess sample_job, EProcess sample_job, ECommit (Connected ''sqlite:///legi.sqlite'')]
   \<and> \<not> use_parallel (Some 1) [sample_job, sample_job]
   \<and> fst (run_jobs sample_process_xml (Some 1) ''sqlite:///legi.sqlite''
            [sample_job, sample_job]) =
     [EProcess sample_job, ECommit CallerDb, EProcess sample_job, ECommit CallerDb]"
  using batch_commits_once_sync_commits_each
    [of sample_process_xml "[sample_job, sample_job]" "''sqlite:///legi.sqlite''"
        "[sample_job, sample_job]" "Some 1"]
  by (simp add: use_parallel_def)

subsection \<open>The dispatch policy\<close>

text \<open>
  Claim C5. The jobs of a chunk run sequentially exactly when the worker concurrency is 1
  or the number of jobs is at most ten times the batch size, and in the pool otherwise.
  The batch size is 1000: 10000 jobs run sequentially, and 10001 jobs run in the pool
  when the concurrency is not 1.
\<close>

theorem dispatch_policy:
  "(use_parallel mp jobs \<longleftrightarrow>
      \<not> (mp = Some 1 \<or> length jobs \<le> 10 * PROCESS_XML_JOBS_BATCH_SIZE))
   \<and> run_jobs px mp url jobs =
       (if mp = Some 1 \<or> length jobs \<le> 10 * PROCESS_XML_JOBS_BATCH_SIZE
        then process_xml_jobs_sync px jobs True CallerDb True
        else process_xml_jobs_in_parallel px jobs url)
   \<and> PROCESS_XML_JOBS_BATCH_SIZE = 1000
   \<and> (length jobs = 10000 \<longrightarrow>
        run_jobs px mp url jobs = process_xml_jobs_sync px jobs True CallerDb True)
   \<and> (length jobs = 10001 \<and> mp \<noteq> Some 1 \<longrightarrow>
        run_jobs px mp url jobs = process_xml_jobs_in_parallel px jobs url)"
  by (auto simp: run_jobs_def use_parallel_def PROCESS_XML_JOBS_BATCH_SIZE_def)

theorem dispatch_policy_witness:
  "run_jobs sample_process_xml (Some 4) ''sqlite:///legi.sqlite'' (replicate 10000 sample_job) =
     process_xml_jobs_sync sample_process_xml (replicate 10000 sample_job) True CallerDb True
   \<and> run_jobs sample_process_xml (Some 4) ''sqlite:///legi.sqlite'' (replicate 10001 sample_job) =
     process_xml_jobs_in_parallel sample_process_xml (replicate 10001 sample_job)
       ''sqlite:///legi.sqlite''"
  using dispatch_policy [of "Some 4" "replicate 10000 sample_job" sample_process_xml
      "''sqlite:///legi.sqlite''"]
    dispatch_policy [of "Some 4" "replicate 10001 sample_job" sample_process_xml
      "''sqlite:///legi.sqlite''"]
  by simp

subsection \<open>Path segments\<close>

lemma split_slash_nonempty: "split_slash p \<noteq> []"
  by (induction p) (simp_all split: list.splits)

lemma split_slash_Cons:
  "split_slash (c # cs) =
     (if c = CHR ''/'' then [] # split_slash cs
      else (c # hd (split_slash cs)) # tl (split_slash cs))"
  using split_slash_nonempty [of cs] by (cases "split_slash cs") simp_all

declare split_slash.simps(2) [simp del]

lemma length_split_slash_pos: "0 < length (split_slash p)"
  using split_slash_nonempty [of p] by simp

lemma split_slash_single_empty: "split_slash p = [[]] \<longleftrightarrow> p = []"
  by (cases p) (simp_all add: split_slash_Cons split_slash_nonempty)


lemma split_slash_remainder:
  "2 \<le> length (split_slash p) \<Longrightarrow>
     split_slash (drop (length (hd (split_slash p)) + 1) p) = tl (split_slash p)"
proof (induction p)
  case Nil
  then show ?case by simp
next
  case (Cons c cs)
  show ?case
  proof (cases "c = CHR ''/''")
    case True
    then show ?thesis by (simp add: split_slash_Cons)
  next
    case False
    have "2 \<le> length (split_slash cs)"
      using length_split_slash_pos [of cs] False Cons.prems by (simp add: split_slash_Cons)
    with Cons.IH False show ?thesis by (simp add: split_slash_Cons)
  qed
qed

lemma remainder_shorter:
  "2 \<le> length (split_slash p) \<Longrightarrow> length (hd (split_slash p)) + 1 \<le> length p"
proof (induction p)
  case Nil
  then show ?case by simp
next
  case (Cons c cs)
  show ?case
  proof (cases "c = CHR ''/''")
    case True
    then show ?thesis by (simp add: split_slash_Cons)
  next
    case False
    have "2 \<le> length (split_slash cs)"
      using length_split_slash_pos [of cs] False Cons.prems by (simp add: split_slash_Cons)
    with Cons.IH False show ?thesis by (simp add: split_slash_Cons)
  qed
qed

lemma unknown_folder_check_long:
  "3 \<le> length ps \<Longrightarrow>
   unknown_folder_check ps =
     Inr (ps ! 0 \<notin> set [''legi'', ''jorf'', ''kali'']
        \<or> (ps ! 0 = ''legi'' \<and> \<not> startswith (ps ! 2) ''code_et_TNC_'')
        \<or> (ps ! 0 = ''jorf'' \<and> ps ! 2 \<notin> set [''article'', ''section_ta'', ''texte''])
        \<or> (ps ! 0 = ''kali'' \<and> ps ! 2 \<notin> set [''article'', ''section_ta'', ''texte'', ''conteneur'']))"
  by (auto simp: unknown_folder_check_def item_def or_else_def and_then_def test_def)

lemma classify_parts_short:
  assumes "ps \<noteq> []" and "length ps < 3"
  shows "classify_parts gt gd e base st lk ps = Inl IndexError"
proof -
  from assms have i0: "item ps 0 = Inr (ps ! 0)" and i2: "item ps 2 = Inl IndexError"
    by (simp_all add: item_def)
  show ?thesis
    by (simp add: classify_parts_def unknown_folder_check_def i0 i2 or_else_def and_then_def test_def)
qed

lemma classify_parts_pathname:
  "classify_parts gt gd (e\<lparr>pathname := x\<rparr>) base st lk ps = classify_parts gt gd e base st lk ps"
  by (simp add: classify_parts_def Let_def cong: sum.case_cong option.case_cong if_cong)

lemma dd_get_dd_add:
  "dd_get (dd_add d key n) k = dd_get d k + (if k = key then n else 0)"
  for d :: "nat ddict"
  by (simp add: dd_get_def dd_add_def update_conv')

lemma lower_eq_Nil: "lower b = [] \<longleftrightarrow> b = []"
  by (simp add: lower_def)

lemma tl_nonempty: "1 < length xs \<Longrightarrow> tl xs \<noteq> []"
  by (cases xs) auto

lemma last_tl_long: "1 < length xs \<Longrightarrow> last (tl xs) = last xs"
  by (cases xs) auto

lemma classifier_after_checks:
  assumes "pathname e \<noteq> []" and "last (pathname e) \<noteq> CHR ''/''"
    and "last (split_slash (pathname e)) \<noteq> ''liste_suppression_'' @ lower base @ ''.dat''"
    and "1 < length (split_slash (pathname e))"
  shows "get_process_xml_job_args_for_entry gt gd e base st lk =
           classify_parts gt gd e base st lk
             (if split_slash (pathname e) ! 1 = lower base then tl (split_slash (pathname e))
              else split_slash (pathname e))"
  using assms by (simp add: get_process_xml_job_args_for_entry_def Let_def item_def)


lemmas classify_eval =
  get_process_xml_job_args_for_entry_def classify_parts_def unknown_folder_check_def
  or_else_def and_then_def test_def item_def startswith_def Let_def lower_def lower_char_def
  sample_get_table_def sample_get_dossier_def sample_entry_def empty_walk_def
  decode_ascii_def split_ws_def is_space_def dd_add_def dd_get_def split_slash.simps


lemma split_legi_section_path:
  "split_slash legi_section_path =
     [''legi'', ''global'', ''code_et_TNC_en_vigueur'', ''code_en_vigueur'', ''LEGI'', ''TEXT'',
      ''00'', ''00'', ''06'', ''07'', ''05'', ''LEGITEXT000006070506'', ''section_ta'', ''LEGI'',
      ''SCTA'', ''00'', ''00'', ''06'', ''41'', ''LEGISCTA000006410000.xml'']"
  by (simp add: legi_section_path_def split_slash.simps)

lemma legi_section_path_last:
  "legi_section_path \<noteq> [] \<and> last legi_section_path = CHR ''l''"
  by (simp add: legi_section_path_def)

subsection \<open>The entry classifier\<close>

text \<open>
  Claim C9. An entry whose path does not end with a separator, whose final segment is not
  the name of the suppression list, and whose path has fewer than three segments once the
  optional first segment is stripped (fewer than three as it stands, or exactly three with
  the second equal to the lower-cased base) makes the classifier raise \<^verbatim>\<open>IndexError\<close>:
  on the empty path at \<^verbatim>\<open>path[-1]\<close>, on a single segment at \<^verbatim>\<open>parts[1]\<close>, otherwise
  at the read of \<^verbatim>\<open>parts[2]\<close> in the family check or in the tally.
\<close>

theorem short_path_raises_index_error:
  assumes "\<not> (pathname e \<noteq> [] \<and> last (pathname e) = CHR ''/'')"
    and "last (split_slash (pathname e)) \<noteq> ''liste_suppression_'' @ lower base @ ''.dat''"
    and "length (split_slash (pathname e)) < 3
         \<or> (length (split_slash (pathname e)) = 3 \<and> split_slash (pathname e) ! 1 = lower base)"
  shows "get_process_xml_job_args_for_entry gt gd e base st lk = Inl IndexError"
proof (cases "pathname e = []")
  case True
  then show ?thesis by (simp add: get_process_xml_job_args_for_entry_def)
next
  case False
  with assms(1) have nd: "last (pathname e) \<noteq> CHR ''/''" by simp
  show ?thesis
  proof (cases "1 < length (split_slash (pathname e))")
    case False
    with \<open>pathname e \<noteq> []\<close> nd assms(2) show ?thesis
      by (simp add: get_process_xml_job_args_for_entry_def Let_def item_def)
  next
    case True
    let ?ps = "if split_slash (pathname e) ! 1 = lower base then tl (split_slash (pathname e))
              else split_slash (pathname e)"
    from True assms(3) have "?ps \<noteq> []" and "length ?ps < 3"
      by (auto simp: tl_nonempty)
    then have "classify_parts gt gd e base st lk ?ps = Inl IndexError"
      by (rule classify_parts_short)
    with classifier_after_checks [OF \<open>pathname e \<noteq> []\<close> nd assms(2) True]
    show ?thesis by simp
  qed
qed


theorem short_path_raises_index_error_witness:
  "\<not> (''legi/readme.txt'' \<noteq> [] \<and> last ''legi/readme.txt'' = CHR ''/'')
   \<and> last (split_slash ''legi/readme.txt'') \<noteq> ''liste_suppression_'' @ lower ''LEGI'' @ ''.dat''
   \<and> length (split_slash ''legi/readme.txt'') < 3
   \<and> get_process_xml_job_args_for_entry sample_get_table sample_get_dossier
        (sample_entry ''legi/readme.txt'' ''r'') ''LEGI'' empty_walk True = Inl IndexError"
proof -
  have a: "\<not> (pathname (sample_entry ''legi/readme.txt'' ''r'') \<noteq> []
              \<and> last (pathname (sample_entry ''legi/readme.txt'' ''r'')) = CHR ''/'')"
    by (simp add: sample_entry_def)
  have b: "last (split_slash (pathname (sample_entry ''legi/readme.txt'' ''r''))) \<noteq>
             ''liste_suppression_'' @ lower ''LEGI'' @ ''.dat''"
    by (simp add: sample_entry_def split_slash.simps)
  have c: "length (split_slash (pathname (sample_entry ''legi/readme.txt'' ''r''))) < 3
           \<or> (length (split_slash (pathname (sample_entry ''legi/readme.txt'' ''r''))) = 3
              \<and> split_slash (pathname (sample_entry ''legi/readme.txt'' ''r'')) ! 1 = lower ''LEGI'')"
    by (simp add: sample_entry_def split_slash.simps)
  from short_path_raises_index_error [OF a b c] a b c show ?thesis
    by (simp add: sample_entry_def split_slash.simps)
qed

text \<open>
  Claim C6, as amended. An entry that is neither a directory nor the suppression list,
  that has at least three segments after the strip and that fails the family or category
  check yields no job and adds one to the tally under its third segment, whichever of
  the two checks failed. (The claim names the top-level segment when the top-level check
  fails; the counterexample below is the claim's own archive, whose entry under the
  unrecognised folder is tallied under \<open>other\<close>, the third segment of its path.)
\<close>

theorem unknown_folder_tallied_under_third_segment:
  assumes "pathname e \<noteq> []" and "last (pathname e) \<noteq> CHR ''/''"
    and "last (split_slash (pathname e)) \<noteq> ''liste_suppression_'' @ lower base @ ''.dat''"
    and "1 < length (split_slash (pathname e))"
    and "parts = (if split_slash (pathname e) ! 1 = lower base then tl (split_slash (pathname e))
                  else split_slash (pathname e))"
    and "3 \<le> length parts"
    and "parts ! 0 \<notin> {''legi'', ''jorf'', ''kali''}
         \<or> (parts ! 0 = ''legi'' \<and> \<not> startswith (parts ! 2) ''code_et_TNC_'')
         \<or> (parts ! 0 = ''jorf'' \<and> parts ! 2 \<notin> {''article'', ''section_ta'', ''texte''})
         \<or> (parts ! 0 = ''kali''
              \<and> parts ! 2 \<notin> {''article'', ''section_ta'', ''texte'', ''conteneur''})"
  shows "get_process_xml_job_args_for_entry gt gd e base st lk =
           Inr (None, st\<lparr>unknown_folders := dd_add (unknown_folders st) (parts ! 2) 1\<rparr>)
         \<and> (\<forall>k. dd_get (dd_add (unknown_folders st) (parts ! 2) 1) k =
                  dd_get (unknown_folders st) k + (if k = parts ! 2 then 1 else 0))"
proof -
  from assms(6,7) have "unknown_folder_check parts = Inr True"
    by (simp add: unknown_folder_check_long)
  moreover from assms(6) have "item parts 2 = Inr (parts ! 2)"
    by (simp add: item_def)
  ultimately have "classify_parts gt gd e base st lk parts =
      Inr (None, st\<lparr>unknown_folders := dd_add (unknown_folders st) (parts ! 2) 1\<rparr>)"
    by (simp add: classify_parts_def)
  with classifier_after_checks [OF assms(1-4)] assms(5) show ?thesis
    by (simp add: dd_get_dd_add)
qed


theorem unknown_folder_tallied_under_third_segment_witness:
  "get_process_xml_job_args_for_entry sample_get_table sample_get_dossier
     (sample_entry ''unrecognized_folder/global/other/a.xml'' ''<a/>'') ''JORF'' empty_walk True =
     Inr (None, \<lparr> liste_suppression = [], unknown_folders = [(''other'', 1)] \<rparr>)
   \<and> dd_get (dd_add (unknown_folders empty_walk) ''other'' 1) ''other'' = 1"
proof -
  let ?e = "sample_entry ''unrecognized_folder/global/other/a.xml'' ''<a/>''"
  let ?parts = "[''unrecognized_folder'', ''global'', ''other'', ''a.xml'']"
  have sp: "split_slash (pathname ?e) = ?parts"
    by (simp add: sample_entry_def split_slash.simps)
  have h1: "pathname ?e \<noteq> []" and h2: "last (pathname ?e) \<noteq> CHR ''/''"
    by (simp_all add: sample_entry_def)
  have h3: "last (split_slash (pathname ?e)) \<noteq> ''liste_suppression_'' @ lower ''JORF'' @ ''.dat''"
    by (simp add: sp)
  have h4: "1 < length (split_slash (pathname ?e))"
    by (simp add: sp)
  have h5: "?parts = (if split_slash (pathname ?e) ! 1 = lower ''JORF''
                      then tl (split_slash (pathname ?e)) else split_slash (pathname ?e))"
    by (simp add: sp lower_def lower_char_def)
  have h6: "3 \<le> length ?parts" by simp
  have h7: "?parts ! 0 \<notin> {''legi'', ''jorf'', ''kali''}
         \<or> (?parts ! 0 = ''legi'' \<and> \<not> startswith (?parts ! 2) ''code_et_TNC_'')
         \<or> (?parts ! 0 = ''jorf'' \<and> ?parts ! 2 \<notin> {''article'', ''section_ta'', ''texte''})
         \<or> (?parts ! 0 = ''kali''
              \<and> ?parts ! 2 \<notin> {''article'', ''section_ta'', ''texte'', ''conteneur''})"
    by simp
  have v: "?parts ! 2 = ''other''" by simp
  note t = unknown_folder_tallied_under_third_segment
    [OF h1 h2 h3 h4 h5 h6 h7, of sample_get_table sample_get_dossier empty_walk True]
  from t have a: "get_process_xml_job_args_for_entry sample_get_table sample_get_dossier ?e
       ''JORF'' empty_walk True =
     Inr (None, empty_walk\<lparr>unknown_folders := dd_add (unknown_folders empty_walk) ''other'' 1\<rparr>)"
    unfolding v by (rule conjunct1)
  from t have "\<forall>k. dd_get (dd_add (unknown_folders empty_walk) ''other'' 1) k =
                  dd_get (unknown_folders empty_walk) k + (if k = ''other'' then 1 else 0)"
    unfolding v by (rule conjunct2)
  then have b: "dd_get (dd_add (unknown_folders empty_walk) ''other'' 1) ''other'' =
                  dd_get (unknown_folders empty_walk) ''other'' + 1"
    by simp
  have c: "dd_add (unknown_folders empty_walk) ''other'' 1 = [(''other'', 1)]"
    by (simp add: empty_walk_def dd_add_def dd_get_def)
  have d: "dd_get (unknown_folders empty_walk) ''other'' = 0"
    by (simp add: empty_walk_def dd_get_def)
  from a b show ?thesis
    unfolding c d by (simp add: empty_walk_def)
qed

theorem unknown_folder_tally_counterexample:
  "jobs_args_for_entries sample_get_table sample_get_dossier ''JORF'' True
     [sample_entry ''jorf/'' [],
      sample_entry ''unrecognized_folder/global/other/a.xml'' ''<a/>'',
      sample_entry ''jorf/global/disallowed_category/b.xml'' ''<b/>'',
      sample_entry ''jorf/global/article/JORFARTI1.xml'' ''<a/>''] empty_walk =
     Inr ([None, None, None, Some sample_job],
          \<lparr> liste_suppression = [],
            unknown_folders = [(''other'', 1), (''disallowed_category'', 1)] \<rparr>)
   \<and> [(''other'', 1), (''disallowed_category'', 1)] \<noteq>
       [(''unrecognized_folder'', 1 :: nat), (''disallowed_category'', 1)]"
  by (simp add: classify_eval sample_job_def)

text \<open>
  Claim C7, as amended. An entry that passes the family and category checks and for which
  the table mapping returns no match yields no job and adds one to the tally under its
  text identifier, the final segment without its last four characters, provided that for
  the base \<open>LEGI\<close> the path has at least twelve segments after the strip. (The code reads
  \<^verbatim>\<open>parts[11]\<close> for that base before it looks at the table; on a shorter path it raises
  \<^verbatim>\<open>IndexError\<close>, as the counterexample below shows.)
\<close>

theorem unmatched_table_tallied_under_text_id:
  assumes "pathname e \<noteq> []" and "last (pathname e) \<noteq> CHR ''/''"
    and "last (split_slash (pathname e)) \<noteq> ''liste_suppression_'' @ lower base @ ''.dat''"
    and "1 < length (split_slash (pathname e))"
    and "parts = (if split_slash (pathname e) ! 1 = lower base then tl (split_slash (pathname e))
                  else split_slash (pathname e))"
    and "3 \<le> length parts"
    and "(parts ! 0 = ''legi'' \<and> startswith (parts ! 2) ''code_et_TNC_'')
         \<or> (parts ! 0 = ''jorf'' \<and> parts ! 2 \<in> {''article'', ''section_ta'', ''texte''})
         \<or> (parts ! 0 = ''kali''
              \<and> parts ! 2 \<in> {''article'', ''section_ta'', ''texte'', ''conteneur''})"
    and "gt parts = None"
    and "base = ''LEGI'' \<longrightarrow> 12 \<le> length parts"
    and "tid = take (length (last (split_slash (pathname e))) - 4) (last (split_slash (pathname e)))"
  shows "get_process_xml_job_args_for_entry gt gd e base st lk =
           Inr (None, st\<lparr>unknown_folders := dd_add (unknown_folders st) tid 1\<rparr>)
         \<and> (\<forall>k. dd_get (dd_add (unknown_folders st) tid 1) k =
                  dd_get (unknown_folders st) k + (if k = tid then 1 else 0))"
proof -
  from assms(6,7) have chk: "unknown_folder_check parts = Inr False"
    by (auto simp: unknown_folder_check_long)
  from assms(9) have cid: "base = ''LEGI'' \<Longrightarrow> item parts 11 = Inr (parts ! 11)"
    by (simp add: item_def)
  from assms(4,5,6) have "last parts = last (split_slash (pathname e))"
    by (auto simp: last_tl_long)
  with assms(10) have tid: "take (length (last parts) - 4) (last parts) = tid" by simp
  have "classify_parts gt gd e base st lk parts =
      Inr (None, st\<lparr>unknown_folders := dd_add (unknown_folders st) tid 1\<rparr>)"
    using chk cid tid assms(8) by (cases "base = ''LEGI''") (simp_all add: classify_parts_def Let_def)
  with classifier_after_checks [OF assms(1-4)] assms(5) show ?thesis
    by (simp add: dd_get_dd_add)
qed

theorem unmatched_table_tallied_under_text_id_witness:
  "sample_get_table (split_slash legi_section_path) = None
   \<and> 12 \<le> length (split_slash legi_section_path)
   \<and> get_process_xml_job_args_for_entry sample_get_table sample_get_dossier
        (sample_entry legi_section_path ''<s/>'') ''LEGI'' empty_walk True =
       Inr (None, \<lparr> liste_suppression = [],
                    unknown_folders = [(''LEGISCTA000006410000'', 1)] \<rparr>)"
  using unmatched_table_tallied_under_text_id
    [of "sample_entry legi_section_path ''<s/>''" "''LEGI''" "split_slash legi_section_path"
        sample_get_table "''LEGISCTA000006410000''" sample_get_dossier empty_walk True]
  by (simp add: sample_entry_def empty_walk_def split_legi_section_path legi_section_path_last
      lower_def lower_char_def startswith_def sample_get_table_def dd_add_def dd_get_def)

theorem unmatched_table_short_legi_path_counterexample:
  "unknown_folder_check (split_slash ''legi/global/code_et_TNC_en_vigueur/LEGISCTA1.xml'') =
     Inr False
   \<and> sample_get_table (split_slash ''legi/global/code_et_TNC_en_vigueur/LEGISCTA1.xml'') = None
   \<and> get_process_xml_job_args_for_entry sample_get_table sample_get_dossier
        (sample_entry ''legi/global/code_et_TNC_en_vigueur/LEGISCTA1.xml'' ''<s/>'')
        ''LEGI'' empty_walk True = Inl IndexError"
  by (simp add: classify_eval)

lemma remainder_nonempty:
  assumes "2 \<le> length (split_slash p)" and "split_slash p ! 1 \<noteq> []"
  shows "drop (length (hd (split_slash p)) + 1) p \<noteq> []"
proof
  assume "drop (length (hd (split_slash p)) + 1) p = []"
  then have "split_slash (drop (length (hd (split_slash p)) + 1) p) = [[]]" by simp
  with split_slash_remainder [OF assms(1)] have "tl (split_slash p) = [[]]" by simp
  then have "split_slash p ! 1 = []" by (cases "split_slash p") simp_all
  with assms(2) show False by simp
qed


text \<open>
  Claim C10, as amended. For a non-empty base and a path whose second segment is \<open>p1\<close>:
  when \<open>p1\<close> is the lower-cased base and the third segment is not the lower-cased base as
  well, the entry is routed exactly as the entry whose path is the remainder after the
  first segment; and an entry that is neither a directory nor the suppression list is
  routed on the segments without the first one when \<open>p1\<close> is the lower-cased base, on all
  of them otherwise. (The strip happens once: when the third segment also equals the
  lower-cased base the remainder would be stripped again, and the two entries are routed
  differently, as the counterexample below shows.)
\<close>

theorem base_prefix_shift:
  assumes "base \<noteq> []"
    and "parts = split_slash (pathname e)"
    and "item parts 1 = Inr p1"
  shows "(p1 = lower base \<and> item (tl parts) 1 \<noteq> Inr (lower base) \<longrightarrow>
            get_process_xml_job_args_for_entry gt gd e base st lk =
            get_process_xml_job_args_for_entry gt gd
              (e\<lparr>pathname := drop (length (hd parts) + 1) (pathname e)\<rparr>) base st lk)
       \<and> (last (pathname e) \<noteq> CHR ''/''
            \<and> last parts \<noteq> ''liste_suppression_'' @ lower base @ ''.dat'' \<longrightarrow>
            get_process_xml_job_args_for_entry gt gd e base st lk =
            classify_parts gt gd e base st lk (if p1 = lower base then tl parts else parts))"
proof (intro conjI impI)
  from assms(3) have len: "1 < length parts" and p1: "parts ! 1 = p1"
    by (auto simp: item_def split: if_splits)
  from len assms(2) have ne: "pathname e \<noteq> []"
    by (cases "pathname e") auto
  {
    assume "last (pathname e) \<noteq> CHR ''/''
            \<and> last parts \<noteq> ''liste_suppression_'' @ lower base @ ''.dat''"
    with classifier_after_checks [of e base gt gd st lk] ne len p1 assms(2)
    show "get_process_xml_job_args_for_entry gt gd e base st lk =
            classify_parts gt gd e base st lk (if p1 = lower base then tl parts else parts)"
      by simp
  }
  {
    assume h: "p1 = lower base \<and> item (tl parts) 1 \<noteq> Inr (lower base)"
    let ?p' = "drop (length (hd parts) + 1) (pathname e)"
    let ?e' = "e\<lparr>pathname := ?p'\<rparr>"
    from len assms(2) have len2: "2 \<le> length (split_slash (pathname e))" by simp
    have sp: "split_slash ?p' = tl parts"
      using split_slash_remainder [OF len2] assms(2) by simp
    from h p1 assms(1) have "parts ! 1 \<noteq> []" by (simp add: lower_eq_Nil)
    with remainder_nonempty [OF len2] assms(2) have ne': "?p' \<noteq> []" by simp
    then have lastp: "last ?p' = last (pathname e)" by (simp add: last_drop)
    have lastparts: "last (tl parts) = last parts" using len by (rule last_tl_long)
    show "get_process_xml_job_args_for_entry gt gd e base st lk =
            get_process_xml_job_args_for_entry gt gd ?e' base st lk"
    proof (cases "last (pathname e) = CHR ''/''
                  \<or> last parts = ''liste_suppression_'' @ lower base @ ''.dat''")
      case True
      with ne ne' lastp lastparts sp assms(2) show ?thesis
        by (auto simp: get_process_xml_job_args_for_entry_def Let_def)
    next
      case False
      with classifier_after_checks [of e base gt gd st lk] ne len p1 h assms(2)
      have lhs: "get_process_xml_job_args_for_entry gt gd e base st lk =
                   classify_parts gt gd e base st lk (tl parts)" by simp
      show ?thesis
      proof (cases "1 < length (tl parts)")
        case True
        with h have "tl parts ! 1 \<noteq> lower base" by (simp add: item_def)
        with classifier_after_checks [of ?e' base gt gd st lk] ne' lastp lastparts sp False True
        have "get_process_xml_job_args_for_entry gt gd ?e' base st lk =
                classify_parts gt gd ?e' base st lk (tl parts)" by simp
        with lhs show ?thesis by (simp add: classify_parts_pathname)
      next
        case short: False
        from len have "tl parts \<noteq> []" by (rule tl_nonempty)
        moreover from short have "length (tl parts) < 3" by simp
        ultimately have "classify_parts gt gd e base st lk (tl parts) = Inl IndexError"
          by (rule classify_parts_short)
        moreover from short ne' lastp lastparts sp False
        have "get_process_xml_job_args_for_entry gt gd ?e' base st lk = Inl IndexError"
          by (simp add: get_process_xml_job_args_for_entry_def Let_def item_def)
        ultimately show ?thesis using lhs by simp
      qed
    qed
  }
qed


theorem base_prefix_shift_witness:
  "item (split_slash ''20200101/jorf/global/article/JORFARTI1.xml'') 1 = Inr (lower ''JORF'')
   \<and> item (tl (split_slash ''20200101/jorf/global/article/JORFARTI1.xml'')) 1 \<noteq>
       Inr (lower ''JORF'')
   \<and> get_process_xml_job_args_for_entry sample_get_table sample_get_dossier
        (sample_entry ''20200101/jorf/global/article/JORFARTI1.xml'' ''<a/>'')
        ''JORF'' empty_walk True =
     get_process_xml_job_args_for_entry sample_get_table sample_get_dossier
        (sample_entry ''jorf/global/article/JORFARTI1.xml'' ''<a/>'')
        ''JORF'' empty_walk True
   \<and> get_process_xml_job_args_for_entry sample_get_table sample_get_dossier
        (sample_entry ''20200101/jorf/global/article/JORFARTI1.xml'' ''<a/>'')
        ''JORF'' empty_walk True =
     classify_parts sample_get_table sample_get_dossier
        (sample_entry ''20200101/jorf/global/article/JORFARTI1.xml'' ''<a/>'')
        ''JORF'' empty_walk True [''jorf'', ''global'', ''article'', ''JORFARTI1.xml'']"
proof -
  let ?p = "''20200101/jorf/global/article/JORFARTI1.xml''"
  let ?e = "sample_entry ?p ''<a/>''"
  let ?parts = "[''20200101'', ''jorf'', ''global'', ''article'', ''JORFARTI1.xml'']"
  have sp: "split_slash ?p = ?parts"
    by (simp add: split_slash.simps)
  have pe: "pathname ?e = ?p" by (simp add: sample_entry_def)
  have lo: "lower ''JORF'' = ''jorf''" by (simp add: lower_def lower_char_def)
  have h1: "''JORF'' \<noteq> []" by simp
  have h2: "?parts = split_slash (pathname ?e)" by (simp add: pe sp)
  have h3: "item ?parts 1 = Inr (lower ''JORF'')" by (simp add: item_def lo)
  have h4: "item (tl ?parts) 1 \<noteq> Inr (lower ''JORF'')" by (simp add: item_def lo)
  have h5: "last (pathname ?e) \<noteq> CHR ''/''
            \<and> last ?parts \<noteq> ''liste_suppression_'' @ lower ''JORF'' @ ''.dat''"
    by (simp add: pe)
  have rem: "?e\<lparr>pathname := drop (length (hd ?parts) + 1) (pathname ?e)\<rparr> =
             sample_entry ''jorf/global/article/JORFARTI1.xml'' ''<a/>''"
    by (simp add: sample_entry_def)
  note t = base_prefix_shift
    [OF h1 h2 h3, of sample_get_table sample_get_dossier empty_walk True]
  from t h3 h4 have a: "get_process_xml_job_args_for_entry sample_get_table sample_get_dossier ?e
        ''JORF'' empty_walk True =
      get_process_xml_job_args_for_entry sample_get_table sample_get_dossier
        (?e\<lparr>pathname := drop (length (hd ?parts) + 1) (pathname ?e)\<rparr>) ''JORF'' empty_walk True"
    by blast
  from t h5 have b: "get_process_xml_job_args_for_entry sample_get_table sample_get_dossier ?e
        ''JORF'' empty_walk True =
      classify_parts sample_get_table sample_get_dossier ?e ''JORF'' empty_walk True
        (if lower ''JORF'' = lower ''JORF'' then tl ?parts else ?parts)"
    by blast
  from b have b': "get_process_xml_job_args_for_entry sample_get_table sample_get_dossier ?e
        ''JORF'' empty_walk True =
      classify_parts sample_get_table sample_get_dossier ?e ''JORF'' empty_walk True
        [''jorf'', ''global'', ''article'', ''JORFARTI1.xml'']"
    by simp
  from h3 have c: "item (split_slash ?p) 1 = Inr (lower ''JORF'')" by (simp add: sp)
  from h4 have d: "item (tl (split_slash ?p)) 1 \<noteq> Inr (lower ''JORF'')" by (simp add: sp)
  from a have a': "get_process_xml_job_args_for_entry sample_get_table sample_get_dossier ?e
        ''JORF'' empty_walk True =
      get_process_xml_job_args_for_entry sample_get_table sample_get_dossier
        (sample_entry ''jorf/global/article/JORFARTI1.xml'' ''<a/>'') ''JORF'' empty_walk True"
    unfolding rem .
  from c d a' b' show ?thesis by blast
qed

theorem base_prefix_shift_counterexample:
  "item (split_slash ''20200101/jorf/jorf/article/JORFARTI1.xml'') 1 = Inr (lower ''JORF'')
   \<and> get_process_xml_job_args_for_entry sample_get_table sample_get_dossier
        (sample_entry ''20200101/jorf/jorf/article/JORFARTI1.xml'' ''<a/>'')
        ''JORF'' empty_walk True =
       Inr (Some (sample_job\<lparr>job_dossier := ''JORFARTI1.xml''\<rparr>), empty_walk)
   \<and> get_process_xml_job_args_for_entry sample_get_table sample_get_dossier
        (sample_entry ''jorf/jorf/article/JORFARTI1.xml'' ''<a/>'')
        ''JORF'' empty_walk True =
       Inr (None, \<lparr> liste_suppression = [], unknown_folders = [(''JORFARTI1.xml'', 1)] \<rparr>)"
  by (simp add: classify_eval sample_job_def)

subsection \<open>The suppression list across the chunks\<close>

lemma classify_parts_liste_suppression:
  "classify_parts gt gd e base st lk ps = Inr (a, st') \<Longrightarrow>
     liste_suppression st' = liste_suppression st"
  by (auto simp: classify_parts_def Let_def split: sum.splits if_splits option.splits)

lemma classifier_liste_suppression:
  assumes "get_process_xml_job_args_for_entry gt gd e base st lk = Inr (a, st')"
  shows "liste_suppression st' = liste_suppression st @ suppression_ids base e"
  using assms
  by (auto simp: get_process_xml_job_args_for_entry_def Let_def suppression_ids_def
        decode_ascii_def
      split: sum.splits if_splits dest: classify_parts_liste_suppression)

lemma jobs_args_liste_suppression:
  "jobs_args_for_entries gt gd base lk es st = Inr (as, st') \<Longrightarrow>
     liste_suppression st' = liste_suppression st @ concat (map (suppression_ids base) es)"
proof (induction es arbitrary: st as)
  case Nil
  then show ?case by simp
next
  case (Cons e es)
  from Cons.prems obtain a st1 as1 where
    c: "get_process_xml_job_args_for_entry gt gd e base st lk = Inr (a, st1)" and
    r: "jobs_args_for_entries gt gd base lk es st1 = Inr (as1, st')"
    by (auto split: sum.splits prod.splits)
  from classifier_liste_suppression [OF c] Cons.IH [OF r] show ?case by simp
qed

lemma filter_suppress_sync:
  "filter is_suppress (concat (map (\<lambda>j. EProcess j # (if c then [ECommit d] else [])) js)) = []"
  by (induction js) simp_all

lemma filter_suppress_batches:
  "filter is_suppress (concat (map (\<lambda>b. fst (process_xml_jobs_batch px b url)) bs)) = []"
proof (induction bs)
  case Nil
  show ?case by simp
next
  case (Cons b bs)
  have "filter is_suppress (map EProcess b) = []" by (induction b) simp_all
  with Cons show ?case by (simp add: process_xml_jobs_batch_events)
qed

lemma run_jobs_no_suppress: "filter is_suppress (fst (run_jobs px mp url jobs)) = []"
  by (simp add: run_jobs_def process_xml_jobs_sync_events filter_suppress_sync
      process_xml_jobs_in_parallel_def parallel_loop_events filter_suppress_batches)

lemma run_jobs_no_suppress_pair:
  "run_jobs px mp url jobs = (evs, r) \<Longrightarrow> filter is_suppress evs = []"
  using run_jobs_no_suppress [of px mp url jobs] by simp

lemma process_chunk_no_suppress:
  "process_chunk cfg archive base k chunk s = (evs, r) \<Longrightarrow> filter is_suppress evs = []"
  by (auto simp: process_chunk_def Let_def split: prod.splits sum.splits
      dest: run_jobs_no_suppress_pair)

lemma process_chunk_ok:
  assumes "process_chunk cfg archive base k chunk (st, acc) = (evs, Inr (st', acc'))"
  shows "EChunkProcessing k \<in> set evs
       \<and> liste_suppression st' = liste_suppression st @ chunk_suppression_ids base archive chunk"
  using assms
  by (auto simp: process_chunk_def Let_def chunk_suppression_ids_def
      split: prod.splits sum.splits dest: jobs_args_liste_suppression)


lemma chunk_loop_no_suppress:
  "chunk_loop cfg archive base k chunks s = (evs, r) \<Longrightarrow> filter is_suppress evs = []"
proof (induction chunks arbitrary: k s evs r)
  case Nil
  then show ?case by simp
next
  case (Cons chunk rest)
  obtain evs1 r1 where p: "process_chunk cfg archive base k chunk s = (evs1, r1)"
    by (cases "process_chunk cfg archive base k chunk s")
  note ns1 = process_chunk_no_suppress [OF p]
  show ?case
  proof (cases r1)
    case (Inl err)
    with Cons.prems p ns1 show ?thesis by simp
  next
    case (Inr s')
    obtain evs2 r2 where l: "chunk_loop cfg archive base (k + 1) rest s' = (evs2, r2)"
      by (cases "chunk_loop cfg archive base (k + 1) rest s'")
    from Cons.prems p Inr l have "evs = evs1 @ evs2" by simp
    with ns1 Cons.IH [OF l] show ?thesis by simp
  qed
qed

lemma chunk_loop_ok:
  "chunk_loop cfg archive base k chunks (st, acc) = (evs, Inr (st', acc')) \<Longrightarrow>
     (\<forall>j < length chunks. EChunkProcessing (k + j) \<in> set evs)
     \<and> liste_suppression st' =
         liste_suppression st @ concat (map (chunk_suppression_ids base archive) chunks)"
proof (induction chunks arbitrary: k st acc evs)
  case Nil
  then show ?case by simp
next
  case (Cons chunk rest)
  obtain evs1 r1 where p: "process_chunk cfg archive base k chunk (st, acc) = (evs1, r1)"
    by (cases "process_chunk cfg archive base k chunk (st, acc)")
  show ?case
  proof (cases r1)
    case (Inl err)
    with Cons.prems p show ?thesis by simp
  next
    case (Inr s1)
    obtain st1 acc1 where s1: "s1 = (st1, acc1)" by (cases s1)
    obtain evs2 r2 where l: "chunk_loop cfg archive base (k + 1) rest (st1, acc1) = (evs2, r2)"
      by (cases "chunk_loop cfg archive base (k + 1) rest (st1, acc1)")
    from Cons.prems p Inr s1 l have e: "evs = evs1 @ evs2" and r2: "r2 = Inr (st', acc')"
      by simp_all
    from p Inr s1 have p': "process_chunk cfg archive base k chunk (st, acc) = (evs1, Inr (st1, acc1))"
      by simp
    note pc = process_chunk_ok [OF p']
    from l r2 have "chunk_loop cfg archive base (k + 1) rest (st1, acc1) = (evs2, Inr (st', acc'))"
      by simp
    note ih = Cons.IH [OF this]
    have "\<forall>j < length (chunk # rest). EChunkProcessing (k + j) \<in> set evs"
    proof (intro allI impI)
      fix j assume j: "j < length (chunk # rest)"
      show "EChunkProcessing (k + j) \<in> set evs"
      proof (cases j)
        case 0
        with pc e show ?thesis by simp
      next
        case (Suc i)
        with j have "i < length rest" by simp
        with ih have "EChunkProcessing (k + 1 + i) \<in> set evs2" by blast
        with Suc e show ?thesis by simp
      qed
    qed
    moreover from pc ih have "liste_suppression st' =
        liste_suppression st @ concat (map (chunk_suppression_ids base archive) (chunk # rest))"
      by simp
    ultimately show ?thesis by blast
  qed
qed

lemma no_suppress_member:
  "filter is_suppress xs = [] \<Longrightarrow> ESuppress b d ids \<notin> set xs"
  by (induction xs) (auto split: if_splits)

lemma process_archive_with_chunks_error:
  "process_archive_chunks chunk_size (length archive) = Inl err \<Longrightarrow>
     process_archive_with chunk_size cfg base_value archive = ([], Inl err)"
  by (simp add: process_archive_with_def)

lemma process_archive_with_loop_error:
  "process_archive_chunks chunk_size (length archive) = Inr chunks \<Longrightarrow>
   chunk_loop cfg archive (base_or_default base_value) 0 chunks
     (\<lparr> liste_suppression = [], unknown_folders = [] \<rparr>, [], 0) = (evs1, Inl err) \<Longrightarrow>
     process_archive_with chunk_size cfg base_value archive = (evs1, Inl err)"
  by (simp add: process_archive_with_def)

lemma process_archive_with_loop_ok:
  "process_archive_chunks chunk_size (length archive) = Inr chunks \<Longrightarrow>
   chunk_loop cfg archive (base_or_default base_value) 0 chunks
     (\<lparr> liste_suppression = [], unknown_folders = [] \<rparr>, [], 0) =
       (evs1, Inr (st1, counts1, skipped1)) \<Longrightarrow>
     fst (process_archive_with chunk_size cfg base_value archive) =
       evs1 @ (if liste_suppression st1 \<noteq> [] then
                 [EConnect (cfg_db_url cfg), EProxyInit (Connected (cfg_db_url cfg)),
                  ESuppress (base_or_default base_value) (Connected (cfg_db_url cfg))
                    (liste_suppression st1)]
               else [])"
  by (simp add: process_archive_with_def)



lemma sample_run:
  "process_archive_with 2 sample_config (Some ''JORF'') sample_archive =
     ([EChunkGenerating 0 2 0, EChunkProcessing 0, EProcess sample_job, ECommit CallerDb,
       EChunkGenerating 1 2 2, EChunkProcessing 1,
       EConnect ''sqlite:///legi.sqlite'', EProxyInit (Connected ''sqlite:///legi.sqlite''),
       ESuppress ''JORF'' (Connected ''sqlite:///legi.sqlite'') [''JORFTEXT1'', ''JORFTEXT2'']],
      Inr \<lparr> final_counts = [(''add'', 1)], final_skipped = 0,
            final_unknown_folders = [(''misc'', 2)] \<rparr>)"
  by (simp add: process_archive_with_def process_archive_chunks_def base_or_default_def
      process_chunk_def iterate_archive_chunk_entries_def consume_def sample_archive_def
      sample_config_def sample_process_xml_def sample_job_def classify_eval
      List.map_filter_def run_jobs_def use_parallel_def PROCESS_XML_JOBS_BATCH_SIZE_def
      process_xml_jobs_sync_def after_merge_counts_def merge_counts_def upt_rec)

text \<open>
  Claim C4. In every run, for every chunk size and so for \<open>CHUNK_SIZE\<close>, whether the
  run ends or raises, the suppression applier is invoked at most once; when it is invoked, its event is the last one of the run, after the
  events of every chunk of the chunk list (each chunk's processing mark precedes it and
  no other invocation does), and its list is the concatenation, over all the chunks in
  order, of the identifiers of the suppression-list entries walked for that chunk, so
  the identifiers found in a later chunk are in it.
\<close>

theorem suppress_once_after_all_chunks:
  assumes "process_archive_with chunk_size cfg base_value archive = (evs, r)"
  shows "length (filter is_suppress evs) \<le> 1
       \<and> (\<forall>b d ids. ESuppress b d ids \<in> set evs \<longrightarrow>
            (\<exists>pre chunks.
               evs = pre @ [ESuppress b d ids]
             \<and> filter is_suppress pre = []
             \<and> process_archive_chunks chunk_size (length archive) = Inr chunks
             \<and> (\<forall>k < length chunks. EChunkProcessing k \<in> set pre)
             \<and> b = base_or_default base_value
             \<and> ids = concat (map (chunk_suppression_ids b archive) chunks)))"
proof -
  have quiet: ?thesis if "filter is_suppress evs = []"
  proof -
    from that have "\<And>b d ids. ESuppress b d ids \<notin> set evs" by (rule no_suppress_member)
    with that show ?thesis by simp
  qed
  show ?thesis
  proof (cases "process_archive_chunks chunk_size (length archive)")
    case (Inl err)
    from process_archive_with_chunks_error [OF Inl, of cfg base_value] assms
    have "evs = []" by simp
    then show ?thesis by (intro quiet) simp
  next
    case (Inr chunks)
    let ?base = "base_or_default base_value"
    let ?s0 = "(\<lparr> liste_suppression = [], unknown_folders = [] \<rparr>, [], 0::int)"
    obtain evs1 r1 where l: "chunk_loop cfg archive ?base 0 chunks ?s0 = (evs1, r1)"
      by (cases "chunk_loop cfg archive ?base 0 chunks ?s0")
    note ns = chunk_loop_no_suppress [OF l]
    show ?thesis
    proof (cases r1)
      case (Inl err)
      with l have "chunk_loop cfg archive ?base 0 chunks ?s0 = (evs1, Inl err)" by simp
      from process_archive_with_loop_error [OF Inr this] assms have "evs = evs1" by simp
      with ns show ?thesis by (intro quiet) simp
    next
      case r1: (Inr s1)
      obtain st1 counts1 skipped1 where s1: "s1 = (st1, counts1, skipped1)" by (cases s1)
      from l r1 s1 have l': "chunk_loop cfg archive ?base 0 chunks ?s0 =
          (evs1, Inr (st1, counts1, skipped1))" by simp
      note ok = chunk_loop_ok [OF l']
      from ok have ids: "liste_suppression st1 =
          concat (map (chunk_suppression_ids ?base archive) chunks)" by simp
      from ok have marks: "\<forall>k < length chunks. EChunkProcessing k \<in> set evs1" by simp
      from process_archive_with_loop_ok [OF Inr l'] assms
      have e: "evs = evs1 @ (if liste_suppression st1 \<noteq> [] then
                 [EConnect (cfg_db_url cfg), EProxyInit (Connected (cfg_db_url cfg)),
                  ESuppress ?base (Connected (cfg_db_url cfg)) (liste_suppression st1)]
               else [])" by simp
      show ?thesis
      proof (cases "liste_suppression st1 = []")
        case True
        with e ns show ?thesis by (intro quiet) simp
      next
        case False
        define pre where "pre = evs1 @ [EConnect (cfg_db_url cfg), EProxyInit (Connected (cfg_db_url cfg))]"
        define sup where "sup = ESuppress ?base (Connected (cfg_db_url cfg)) (liste_suppression st1)"
        from False e have e': "evs = pre @ [sup]" by (simp add: pre_def sup_def)
        have nspre: "filter is_suppress pre = []" using ns by (simp add: pre_def)
        have issup: "is_suppress sup" by (simp add: sup_def)
        have once: "length (filter is_suppress evs) \<le> 1" using e' nspre issup by simp
        have marks': "\<forall>k < length chunks. EChunkProcessing k \<in> set pre"
          using marks by (simp add: pre_def)
        have only: "ESuppress b d ids = sup" if "ESuppress b d ids \<in> set evs" for b d ids
        proof -
          from that e' have "ESuppress b d ids \<in> set pre \<or> ESuppress b d ids = sup" by auto
          with no_suppress_member [OF nspre] show ?thesis by blast
        qed
        have "\<exists>pre chunks.
               evs = pre @ [ESuppress b d ids]
             \<and> filter is_suppress pre = []
             \<and> process_archive_chunks chunk_size (length archive) = Inr chunks
             \<and> (\<forall>k < length chunks. EChunkProcessing k \<in> set pre)
             \<and> b = base_or_default base_value
             \<and> ids = concat (map (chunk_suppression_ids b archive) chunks)"
          if m: "ESuppress b d ids \<in> set evs" for b d ids
        proof -
          from only [OF m] have eq: "ESuppress b d ids = sup" .
          then have b: "b = ?base" and i: "ids = liste_suppression st1" by (simp_all add: sup_def)
          have 1: "evs = pre @ [ESuppress b d ids]" using e' eq by simp
          have 2: "ids = concat (map (chunk_suppression_ids b archive) chunks)"
            using i ids b by simp
          from 1 nspre Inr marks' b 2 show ?thesis by blast
        qed
        with once show ?thesis by blast
      qed
    qed
  qed
qed

theorem suppress_once_after_all_chunks_witness:
  "ESuppress ''JORF'' (Connected ''sqlite:///legi.sqlite'') [''JORFTEXT1'', ''JORFTEXT2'']
     \<in> set (fst (process_archive_with 2 sample_config (Some ''JORF'') sample_archive))
   \<and> length (filter is_suppress
        (fst (process_archive_with 2 sample_config (Some ''JORF'') sample_archive))) \<le> 1
   \<and> (\<exists>pre chunks.
         fst (process_archive_with 2 sample_config (Some ''JORF'') sample_archive) =
           pre @ [ESuppress ''JORF'' (Connected ''sqlite:///legi.sqlite'')
                    [''JORFTEXT1'', ''JORFTEXT2'']]
       \<and> filter is_suppress pre = []
       \<and> process_archive_chunks 2 (length sample_archive) = Inr chunks
       \<and> (\<forall>k < length chunks. EChunkProcessing k \<in> set pre)
       \<and> [''JORFTEXT1'', ''JORFTEXT2''] =
           concat (map (chunk_suppression_ids ''JORF'' sample_archive) chunks))"
proof -
  let ?run = "process_archive_with 2 sample_config (Some ''JORF'') sample_archive"
  have h: "?run = (fst ?run, snd ?run)" by simp
  have m: "ESuppress ''JORF'' (Connected ''sqlite:///legi.sqlite'') [''JORFTEXT1'', ''JORFTEXT2'']
     \<in> set (fst ?run)" by (simp add: sample_run)
  from suppress_once_after_all_chunks [OF h] m show ?thesis by blast
qed

end
